theory Spec2Isabelle
  imports Main
begin

section \<open>bulk\_load\_es: the data of the loader\<close>

text \<open>
  The embedding follows \<^verbatim>\<open>cmd/bulk_load_es/main.go\<close>. A \<^verbatim>\<open>*bytes.Buffer\<close> is the
  byte string it holds. The counters of \<^verbatim>\<open>scan\<close> are \<^verbatim>\<open>int64\<close>; they only count
  lines and bytes that were really read from stdin, so they stay far below \<open>2^63\<close> and are
  modelled as unbounded integers. \<^verbatim>\<open>linesRead\<close> is never negative, so Go's \<^verbatim>\<open>%\<close> and
  HOL's \<open>mod\<close> agree on it.
\<close>

type_synonym Buffer = string

text \<open>The program option vars that the pipeline reads.\<close>

record options =
  daemonUrls :: "string list"
  workers :: int
  batchSize :: int
  itemLimit :: int
  useGzip :: bool
  doLoad :: bool
  telemetryHost :: string
  telemetryHostname :: string

text \<open>Every \<^verbatim>\<open>log.Fatal\<close> of the pipeline, as a value.\<close>

datatype fatal =
    TotalsError string
  | ErrorReadingInput string
  | BadBulkFormat
  | IncorrectPoints int int
  | ErrorWriting string

subsection \<open>The buffer pool\<close>

text \<open>
  \<^verbatim>\<open>bufPool\<close> is a \<^verbatim>\<open>sync.Pool\<close> whose \<^verbatim>\<open>New\<close> makes an empty buffer of 4 MB
  capacity. \<^verbatim>\<open>Get\<close> hands out a pooled buffer when there is one and a new one
  otherwise; \<^verbatim>\<open>Put\<close> stores the buffer as it is.
\<close>

definition new_buffer :: Buffer where
  "new_buffer = []"

fun pool_get :: "Buffer list \<Rightarrow> Buffer \<times> Buffer list" where
  "pool_get [] = (new_buffer, [])"
| "pool_get (b # bs) = (b, bs)"

definition pool_put :: "Buffer \<Rightarrow> Buffer list \<Rightarrow> Buffer list" where
  "pool_put b bs = b # bs"

definition reset :: "Buffer \<Rightarrow> Buffer" where
  "reset b = []"

section \<open>scan\<close>

text \<open>
  What \<^verbatim>\<open>scan\<close> does to the two channels, in program order: a send on \<^verbatim>\<open>batchChan\<close>
  and the close of \<^verbatim>\<open>inputDone\<close>.
\<close>

datatype event = BatchSent Buffer | InputDone

record scan_vars =
  buf :: Buffer
  linesRead :: int
  itemsRead :: int
  bytesRead :: int
  totalPoints :: int
  totalValues :: int
  itemsThisBatch :: int
  bufPool :: "Buffer list"
  events :: "event list"

text \<open>
  Standard input as the \<^verbatim>\<open>bufio.Scanner\<close> presents it: the lines for which
  \<^verbatim>\<open>scanner.Scan()\<close> returns true, and what \<^verbatim>\<open>scanner.Err()\<close> reports once the loop
  is over.
\<close>

record stdin =
  lines :: "string list"
  scanErr :: "string option"

text \<open>
  \<^verbatim>\<open>common.CheckTotalValues\<close> belongs to the package \<^verbatim>\<open>bulk_data_gen/common\<close> and is
  not embedded here. It is a parameter of the model: a function from the line to
  \<^verbatim>\<open>(totalPoints, totalValues, err)\<close>.
\<close>

type_synonym check_totals = "string \<Rightarrow> int \<times> int \<times> string option"

datatype flow = Continue | Break | Die fatal

definition newline :: char where
  "newline = CHR 0x0A"

text \<open>One iteration of \<^verbatim>\<open>for scanner.Scan() { ... }\<close>.\<close>

definition scan_line :: "check_totals \<Rightarrow> int \<Rightarrow> int \<Rightarrow> scan_vars \<Rightarrow> string \<Rightarrow> flow \<times> scan_vars" where
  "scan_line CheckTotalValues limit itemsPerBatch s line =
     (case CheckTotalValues line of (tp, tv, err) \<Rightarrow>
        let s1 = s\<lparr>totalPoints := tp, totalValues := tv\<rparr> in
        if tp > 0 \<or> tv > 0 then (Continue, s1)
        else (case err of
          Some e \<Rightarrow> (Die (TotalsError e), s1)
        | None \<Rightarrow>
            let s2 = s1\<lparr>linesRead := linesRead s1 + 1\<rparr>;
                s3 = s2\<lparr>buf := buf s2 @ line @ [newline]\<rparr>;
                s4 = (if linesRead s3 mod 2 = 0
                      then s3\<lparr>itemsRead := itemsRead s3 + 1,
                              itemsThisBatch := itemsThisBatch s3 + 1\<rparr>
                      else s3);
                hitLimit = (limit \<ge> 0 \<and> itemsRead s4 \<ge> limit);
                s5 = (if itemsThisBatch s4 = itemsPerBatch \<or> hitLimit
                      then let s' = s4\<lparr>bytesRead := bytesRead s4 + int (length (buf s4)),
                                        events := events s4 @ [BatchSent (buf s4)]\<rparr>
                           in s'\<lparr>buf := fst (pool_get (bufPool s')),
                                 bufPool := snd (pool_get (bufPool s')),
                                 itemsThisBatch := 0\<rparr>
                      else s4)
            in (if hitLimit then Break else Continue, s5)))"

text \<open>How the loop was left: input exhausted, \<^verbatim>\<open>break\<close> on the item limit, or a fatal exit.\<close>

datatype loop_exit = Exhausted | HitLimit | Died fatal

fun scan_loop :: "check_totals \<Rightarrow> int \<Rightarrow> int \<Rightarrow> string list \<Rightarrow> scan_vars \<Rightarrow> loop_exit \<times> scan_vars" where
  "scan_loop chk limit ipb [] s = (Exhausted, s)"
| "scan_loop chk limit ipb (l # ls) s =
     (case scan_line chk limit ipb s l of
        (Continue, s') \<Rightarrow> scan_loop chk limit ipb ls s'
      | (Break, s') \<Rightarrow> (HitLimit, s')
      | (Die e, s') \<Rightarrow> (Died e, s'))"

definition scan_init :: "Buffer list \<Rightarrow> scan_vars" where
  "scan_init pool =
     \<lparr>buf = fst (pool_get pool), linesRead = 0, itemsRead = 0, bytesRead = 0,
      totalPoints = 0, totalValues = 0, itemsThisBatch = 0,
      bufPool = snd (pool_get pool), events = []\<rparr>"

text \<open>The result of \<^verbatim>\<open>scan\<close>: it returns its three counters, or the process exits.\<close>

datatype scan_result = Returned int int int | Fatal fatal

text \<open>The part of \<^verbatim>\<open>scan\<close> after the loop, for a loop that was not left by a fatal exit.\<close>

definition scan_finish :: "string option \<Rightarrow> scan_vars \<Rightarrow> event list \<times> scan_result" where
  "scan_finish err s =
     (case err of
        Some e \<Rightarrow> (events s, Fatal (ErrorReadingInput e))
      | None \<Rightarrow>
          let evs = (if itemsThisBatch s > 0 then events s @ [BatchSent (buf s)] else events s);
              evs' = evs @ [InputDone]
          in if linesRead s mod 2 \<noteq> 0 then (evs', Fatal BadBulkFormat)
             else if itemsRead s \<noteq> totalPoints s
               then (evs', Fatal (IncorrectPoints (itemsRead s) (totalPoints s)))
             else (evs', Returned (itemsRead s) (bytesRead s) (totalValues s)))"

text \<open>
  \<^verbatim>\<open>scan(itemsPerBatch)\<close>, run on a pool and an input: the channel events it performed
  and how it ended.
\<close>

definition scan :: "check_totals \<Rightarrow> int \<Rightarrow> int \<Rightarrow> Buffer list \<Rightarrow> stdin \<Rightarrow> event list \<times> scan_result" where
  "scan chk limit itemsPerBatch pool inp =
     (case scan_loop chk limit itemsPerBatch (lines inp) (scan_init pool) of
        (Died e, s) \<Rightarrow> (events s, Fatal e)
      | (ex, s) \<Rightarrow> scan_finish (scanErr inp) s)"

section \<open>processBatches\<close>

text \<open>
  \<^verbatim>\<open>HTTPWriter.WriteLineProtocol\<close> and \<^verbatim>\<open>fasthttp.WriteGzip\<close> are not embedded here
  and are parameters: the writer maps the number of requests made so far, the
  host of the worker's \<^verbatim>\<open>HTTPWriter\<close>, the body and the gzip flag to the error it
  returns, if any; the compressor maps the batch to the bytes it appends to the scratch
  buffer.
\<close>

type_synonym writer = "nat \<Rightarrow> string \<Rightarrow> string \<Rightarrow> bool \<Rightarrow> string option"

type_synonym compressor = "string \<Rightarrow> string"

text \<open>A call of \<^verbatim>\<open>w.WriteLineProtocol(body, isGzip)\<close> on the writer of a host.\<close>

record request =
  rq_host :: string
  rq_body :: string
  rq_gzip :: bool

text \<open>
  The \<^verbatim>\<open>report.Point\<close> a worker fills in after a write; its timestamp
  (\<^verbatim>\<open>time.Now()\<close>) is left out.
\<close>

record point =
  pt_name :: string
  pt_src_addr :: string
  pt_dst_addr :: string
  pt_worker_id :: string
  pt_worker_req_num :: int
  pt_gzip :: bool
  pt_body_bytes :: int

text \<open>What the workers share: the buffer pool and, as a log, the requests made.\<close>

record world =
  pool :: "Buffer list"
  written :: "request list"

text \<open>
  The body of \<^verbatim>\<open>for batch := range batchChan\<close> up to the send on \<^verbatim>\<open>telemetrySink\<close>,
  for a worker with the given host and label whose \<^verbatim>\<open>batchesSeen\<close> is \<open>seen\<close>. The
  result is the fatal exit, or the new \<^verbatim>\<open>batchesSeen\<close>, the new shared state and the
  point that is to be sent next, if any. \<open>sink\<close> says that \<^verbatim>\<open>telemetrySink\<close> is not nil.
\<close>

definition process_batch ::
  "options \<Rightarrow> compressor \<Rightarrow> writer \<Rightarrow> string \<Rightarrow> bool \<Rightarrow> string \<Rightarrow> int \<times> world \<Rightarrow> Buffer
     \<Rightarrow> fatal + (int \<times> world \<times> point option)" where
  "process_batch opts gz wr host sink label st batch =
     (case st of (seen, w) \<Rightarrow>
        let batchesSeen = seen + 1 in
        if \<not> doLoad opts then Inr (batchesSeen, w, None)
        else
          let compressedBatch = fst (pool_get (pool w)) @ gz batch;
              body = (if useGzip opts then compressedBatch else batch);
              bodySize = int (length body);
              err = wr (length (written w)) host body (useGzip opts);
              w1 = w\<lparr>written := written w @ [\<lparr>rq_host = host, rq_body = body, rq_gzip = useGzip opts\<rparr>]\<rparr>;
              w2 = (if useGzip opts
                    then w1\<lparr>pool := pool_put (reset compressedBatch) (snd (pool_get (pool w1)))\<rparr>
                    else w1)
          in (case err of
                Some e \<Rightarrow> Inl (ErrorWriting e)
              | None \<Rightarrow>
                  let w3 = w2\<lparr>pool := pool_put (reset batch) (pool w2)\<rparr>
                  in Inr (batchesSeen, w3,
                          if sink
                          then Some \<lparr>pt_name = ''benchmark_write'',
                                     pt_src_addr = telemetryHostname opts,
                                     pt_dst_addr = host,
                                     pt_worker_id = label,
                                     pt_worker_req_num = batchesSeen,
                                     pt_gzip = useGzip opts,
                                     pt_body_bytes = bodySize\<rparr>
                          else None)))"

subsection \<open>One worker, step by step\<close>

text \<open>
  Where a worker stands: at the head of the \<^verbatim>\<open>range\<close> loop, at the send
  \<^verbatim>\<open>telemetrySink <- p\<close>, returned (after \<^verbatim>\<open>workersGroup.Done()\<close>), or the process has
  exited.
\<close>

datatype pc = AtRange | AtSend point | Finished | Exited fatal

record worker_sys =
  batchChan :: "Buffer list"
  batchChanClosed :: bool
  telemetryChan :: "point list"
  w_pc :: pc
  w_seen :: int
  w_world :: world

text \<open>
  One step of \<^verbatim>\<open>processBatches\<close>, or \<open>None\<close> when the worker cannot move. A receive
  from \<^verbatim>\<open>batchChan\<close> needs a batch in it, or the channel closed. The send on
  \<^verbatim>\<open>telemetrySink\<close> is a plain channel send: it proceeds when the channel can take a
  value at this moment (\<open>ready\<close>: a free slot in its buffer, or a receiver waiting), and
  \<open>telemetryChan\<close> records the points the channel has taken.
\<close>

definition worker_step ::
  "options \<Rightarrow> compressor \<Rightarrow> writer \<Rightarrow> string \<Rightarrow> bool \<Rightarrow> string \<Rightarrow> bool \<Rightarrow> worker_sys \<Rightarrow> worker_sys option" where
  "worker_step opts gz wr host sink label ready c =
     (case w_pc c of
        AtRange \<Rightarrow>
          (case batchChan c of
             [] \<Rightarrow> if batchChanClosed c then Some (c\<lparr>w_pc := Finished\<rparr>) else None
           | batch # rest \<Rightarrow>
               (case process_batch opts gz wr host sink label (w_seen c, w_world c) batch of
                  Inl e \<Rightarrow> Some (c\<lparr>batchChan := rest, w_pc := Exited e\<rparr>)
                | Inr (n, w, p) \<Rightarrow>
                    Some (c\<lparr>batchChan := rest, w_seen := n, w_world := w,
                            w_pc := (case p of None \<Rightarrow> AtRange | Some x \<Rightarrow> AtSend x)\<rparr>)))
      | AtSend p \<Rightarrow>
          if ready then Some (c\<lparr>telemetryChan := telemetryChan c @ [p], w_pc := AtRange\<rparr>)
          else None
      | Finished \<Rightarrow> None
      | Exited e \<Rightarrow> None)"

text \<open>
  The worker over a sequence of moments, each with the readiness of the telemetry
  channel at that moment; a worker that cannot move stays where it is.
\<close>

fun worker_run ::
  "options \<Rightarrow> compressor \<Rightarrow> writer \<Rightarrow> string \<Rightarrow> bool \<Rightarrow> string \<Rightarrow> bool list \<Rightarrow> worker_sys \<Rightarrow> worker_sys" where
  "worker_run opts gz wr host sink label [] c = c"
| "worker_run opts gz wr host sink label (ready # rs) c =
     (case worker_step opts gz wr host sink label ready c of
        None \<Rightarrow> worker_run opts gz wr host sink label rs c
      | Some c' \<Rightarrow> worker_run opts gz wr host sink label rs c')"

section \<open>main: the pool of workers and the run\<close>

text \<open>\<^verbatim>\<open>fmt.Sprintf("%d", i)\<close> for the worker label.\<close>

fun decimal :: "nat \<Rightarrow> string" where
  "decimal n = (if n < 10 then [char_of (48 + n)]
                else decimal (n div 10) @ [char_of (48 + n mod 10)])"

text \<open>
  \<^verbatim>\<open>daemonUrls[i%len(daemonUrls)]\<close>, the URL worker \<open>i\<close> is created with. The run
  below only asks for it when there is a URL (with none the remainder would panic, and
  \<^verbatim>\<open>init\<close> has exited before).
\<close>

definition daemonUrl :: "string list \<Rightarrow> nat \<Rightarrow> string" where
  "daemonUrl urls i = urls ! (i mod length urls)"

text \<open>
  The workers draining \<^verbatim>\<open>batchChan\<close>. Batches leave the channel in the order they were
  sent; which worker receives the \<open>k\<close>-th one is decided by the Go scheduler and is the
  parameter \<open>who\<close>, which names workers below \<^verbatim>\<open>workers\<close>. Worker \<open>i\<close> writes to \<open>hosts i\<close>, the host of the \<^verbatim>\<open>HTTPWriter\<close> it was
  started with, is labelled with the decimal of \<open>i\<close>, and keeps its own
  \<^verbatim>\<open>batchesSeen\<close>. The steps of different workers are interleaved batch by batch, and
  every telemetry send is taken to complete; the points sent are collected in order.
\<close>

fun drain ::
  "options \<Rightarrow> compressor \<Rightarrow> writer \<Rightarrow> (nat \<Rightarrow> string) \<Rightarrow> (nat \<Rightarrow> nat) \<Rightarrow> nat \<Rightarrow> Buffer list
     \<Rightarrow> (nat \<Rightarrow> int) \<times> world \<times> point list \<Rightarrow> fatal + ((nat \<Rightarrow> int) \<times> world \<times> point list)" where
  "drain opts gz wr hosts who k [] st = Inr st"
| "drain opts gz wr hosts who k (batch # rest) (seen, w, pts) =
     (case process_batch opts gz wr (hosts (who k)) (telemetryHost opts \<noteq> [])
             (decimal (who k)) (seen (who k), w) batch of
        Inl e \<Rightarrow> Inl e
      | Inr (n, w', p) \<Rightarrow>
          drain opts gz wr hosts who (Suc k) rest
            (seen(who k := n), w', pts @ (case p of None \<Rightarrow> [] | Some x \<Rightarrow> [x])))"

text \<open>The buffers sent on \<^verbatim>\<open>batchChan\<close>, in order.\<close>

fun batches :: "event list \<Rightarrow> Buffer list" where
  "batches [] = []"
| "batches (BatchSent b # evs) = b # batches evs"
| "batches (InputDone # evs) = batches evs"

text \<open>
  How a run ends: a runtime panic, a hang, a fatal exit, or the summary line with
  \<^verbatim>\<open>itemsRead\<close>, \<^verbatim>\<open>bytesRead\<close> and \<^verbatim>\<open>valuesRead\<close> (the rates, which divide by the
  elapsed time, are left out), together with the final shared state and the telemetry
  points sent.
\<close>

datatype run_result =
    Panicked
  | Hangs
  | Exit fatal
  | Completed int int int world "point list"

text \<open>
  \<^verbatim>\<open>main\<close> from the creation of \<^verbatim>\<open>bufPool\<close> to the summary line; the server checks
  before it and the report after it are network calls and are left out.
  \<^verbatim>\<open>make(chan *bytes.Buffer, workers)\<close> panics on a negative size. With no worker
  nothing receives from \<^verbatim>\<open>batchChan\<close>, and \<^verbatim>\<open>scan\<close> waits forever at its first send.
  \<^verbatim>\<open>scan\<close> and the workers run concurrently; the model runs \<^verbatim>\<open>scan\<close> first, on the
  fresh pool, and then lets the workers drain what it sent. When both \<^verbatim>\<open>scan\<close> and a
  worker exit fatally the process ends with whichever comes first; the model reports
  the exit of \<^verbatim>\<open>scan\<close>.
\<close>

definition main_pipeline ::
  "options \<Rightarrow> check_totals \<Rightarrow> compressor \<Rightarrow> writer \<Rightarrow> (nat \<Rightarrow> nat) \<Rightarrow> stdin \<Rightarrow> run_result" where
  "main_pipeline opts chk gz wr who inp =
     (if workers opts < 0 then Panicked
      else if workers opts > 0 \<and> daemonUrls opts = [] then Panicked
      else
        (case scan chk (itemLimit opts) (batchSize opts) [] inp of
           (evs, r) \<Rightarrow>
             if workers opts = 0 \<and> batches evs \<noteq> [] then Hangs
             else
               (case r of
                  Fatal e \<Rightarrow> Exit e
                | Returned items bytes vals \<Rightarrow>
                    (case drain opts gz wr (daemonUrl (daemonUrls opts)) who 0 (batches evs)
                            (\<lambda>i. 0, \<lparr>pool = [], written = []\<rparr>, []) of
                       Inl e \<Rightarrow> Exit e
                     | Inr (seen, w, pts) \<Rightarrow> Completed items bytes vals w pts))))"

section \<open>Notions used to state the properties\<close>

text \<open>
  A line is a totals record when \<^verbatim>\<open>CheckTotalValues\<close> returns a positive
  \<^verbatim>\<open>totalPoints\<close> or \<^verbatim>\<open>totalValues\<close> for it; every other line is a line of data.
\<close>

definition is_totals :: "check_totals \<Rightarrow> string \<Rightarrow> bool" where
  "is_totals chk l = (case chk l of (tp, tv, err) \<Rightarrow> tp > 0 \<or> tv > 0)"

definition data_lines :: "check_totals \<Rightarrow> string list \<Rightarrow> string list" where
  "data_lines chk ls = filter (\<lambda>l. \<not> is_totals chk l) ls"

text \<open>The two counters of \<^verbatim>\<open>scan\<close> in step: an item every second line.\<close>

definition counted :: "scan_vars \<Rightarrow> bool" where
  "counted s = (0 \<le> linesRead s \<and> itemsRead s = linesRead s div 2)"

text \<open>
  The number of items in a batch: \<^verbatim>\<open>scan\<close> ends every line it writes with a newline
  (and the lines a \<^verbatim>\<open>bufio.Scanner\<close> yields contain none), and two lines make an item.
\<close>

definition batch_items :: "Buffer \<Rightarrow> int" where
  "batch_items b = int (count_list b newline) div 2"

text \<open>A pool in which every buffer was reset before it was put back.\<close>

definition pool_clean :: "Buffer list \<Rightarrow> bool" where
  "pool_clean p = list_all (\<lambda>b. b = []) p"

text \<open>
  The state of \<^verbatim>\<open>scan\<close> between two iterations, for a batch size \<open>B\<close>: the batch
  under assembly is not full, and the buffer holds its items and the first line of a
  half-read one.
\<close>

definition assembling :: "int \<Rightarrow> scan_vars \<Rightarrow> bool" where
  "assembling B s =
     (0 \<le> itemsThisBatch s \<and> itemsThisBatch s < B
      \<and> int (count_list (buf s) newline) = 2 * itemsThisBatch s + linesRead s mod 2
      \<and> pool_clean (bufPool s))"

definition within :: "int \<Rightarrow> event list \<Rightarrow> bool" where
  "within B evs = list_all (\<lambda>b. batch_items b \<le> B) (batches evs)"

definition in_step :: "int \<Rightarrow> scan_vars \<Rightarrow> bool" where
  "in_step B s = (0 < B \<and> itemsRead s mod B = itemsThisBatch s)"

text \<open>
  The results of \<^verbatim>\<open>scan\<close> that come after \<^verbatim>\<open>close(inputDone)\<close>: the return and the
  two fatal exits of the checks at its end.
\<close>

fun after_done :: "scan_result \<Rightarrow> bool" where
  "after_done (Returned i b v) = True"
| "after_done (Fatal BadBulkFormat) = True"
| "after_done (Fatal (IncorrectPoints i t)) = True"
| "after_done (Fatal e) = False"

text \<open>The bytes sent on \<^verbatim>\<open>batchChan\<close>, over all batches.\<close>

definition bytes_sent :: "event list \<Rightarrow> int" where
  "bytes_sent evs = sum_list (map (\<lambda>b. int (length b)) (batches evs))"

text \<open>The bytes handed to \<^verbatim>\<open>WriteLineProtocol\<close>, over all requests.\<close>

definition bytes_written :: "world \<Rightarrow> int" where
  "bytes_written w = sum_list (map (\<lambda>r. int (length (rq_body r))) (written w))"

subsection \<open>Concrete runs\<close>

text \<open>
  For the runs on concrete input: a \<^verbatim>\<open>CheckTotalValues\<close> for which the line \<open>T\<close> is the
  totals record announcing \<open>n\<close> points and \<open>v\<close> values, the line \<open>E\<close> is a totals record
  that does not parse, and every other line is data; a compressor; a writer that never
  fails; and options with two workers, two URLs and batches of one item.
\<close>

definition sample_check :: "int \<Rightarrow> int \<Rightarrow> check_totals" where
  "sample_check n v l =
     (if l = ''T'' then (n, v, None)
      else if l = ''E'' then (0, 0, Some ''bad totals'')
      else (0, 0, None))"

definition sample_gzip :: compressor where
  "sample_gzip b = ''gz'' @ b"

definition sample_writer :: writer where
  "sample_writer n host body gzip = None"

definition sample_options :: options where
  "sample_options =
     \<lparr>daemonUrls = [''u0'', ''u1''], workers = 2, batchSize = 1, itemLimit = - 1,
      useGzip = False, doLoad = True, telemetryHost = [], telemetryHostname = ''h''\<rparr>"

definition sample_point :: point where
  "sample_point =
     \<lparr>pt_name = ''benchmark_write'', pt_src_addr = ''h'', pt_dst_addr = ''u0'',
      pt_worker_id = ''0'', pt_worker_req_num = 1, pt_gzip = False, pt_body_bytes = 2\<rparr>"

text \<open>
  A worker on \<open>u0\<close> with two batches waiting in \<^verbatim>\<open>batchChan\<close>, and the same worker
  after it has written the first one and stands at the telemetry send.
\<close>

definition sample_worker :: worker_sys where
  "sample_worker =
     \<lparr>batchChan = [''ab'', ''cd''], batchChanClosed = False, telemetryChan = [],
      w_pc = AtRange, w_seen = 0, w_world = \<lparr>pool = [], written = []\<rparr>\<rparr>"

definition sample_waiting :: worker_sys where
  "sample_waiting =
     \<lparr>batchChan = [''cd''], batchChanClosed = False, telemetryChan = [],
      w_pc = AtSend sample_point, w_seen = 1,
      w_world = \<lparr>pool = [[]],
                 written = [\<lparr>rq_host = ''u0'', rq_body = ''ab'', rq_gzip = False\<rparr>]\<rparr>\<rparr>"

section \<open>The counters of scan\<close>

lemma scan_line_totals:
  "is_totals chk l \<Longrightarrow>
   scan_line chk lim ipb s l =
     (Continue, s\<lparr>totalPoints := fst (chk l), totalValues := fst (snd (chk l))\<rparr>)"
  by (auto simp: scan_line_def is_totals_def split: prod.splits)

lemma scan_line_counted:
  "scan_line chk lim ipb s l = (fl, s') \<Longrightarrow> counted s \<Longrightarrow> counted s'"
  by (auto simp: scan_line_def counted_def Let_def split: prod.splits option.splits if_splits)
     presburger+

lemma scan_line_lines:
  "scan_line chk lim ipb s l = (Continue, s') \<Longrightarrow>
   linesRead s' = linesRead s + (if is_totals chk l then 0 else 1)"
  by (auto simp: scan_line_def is_totals_def Let_def split: prod.splits option.splits if_splits)

text \<open>
  When the loop breaks on the item limit, the line just read was a line of data, so
  \<^verbatim>\<open>totalPoints\<close> is not positive: either an item was read, and the counts differ, or
  none was, and a single line was read.
\<close>

lemma scan_line_break:
  "scan_line chk lim ipb s l = (Break, s') \<Longrightarrow> counted s \<Longrightarrow>
   linesRead s' mod 2 \<noteq> 0 \<or> itemsRead s' \<noteq> totalPoints s'"
  by (auto simp: scan_line_def counted_def Let_def split: prod.splits option.splits if_splits)

lemma scan_loop_counted:
  "scan_loop chk lim ipb ls s = (ex, s') \<Longrightarrow> counted s \<Longrightarrow> counted s'"
proof (induction ls arbitrary: s)
  case Nil
  then show ?case by simp
next
  case (Cons l ls)
  obtain fl t where st: "scan_line chk lim ipb s l = (fl, t)"
    by (cases "scan_line chk lim ipb s l")
  have ct: "counted t" using st Cons.prems(2) by (rule scan_line_counted)
  show ?case
  proof (cases fl)
    case Continue
    then show ?thesis using Cons.IH[OF _ ct] Cons.prems(1) st by simp
  next
    case Break
    then show ?thesis using Cons.prems(1) st ct by simp
  next
    case (Die e)
    then show ?thesis using Cons.prems(1) st ct by simp
  qed
qed

lemma scan_loop_exhausted_lines:
  "scan_loop chk lim ipb ls s = (Exhausted, s') \<Longrightarrow>
   linesRead s' = linesRead s + int (length (data_lines chk ls))"
proof (induction ls arbitrary: s)
  case Nil
  then show ?case by (simp add: data_lines_def)
next
  case (Cons l ls)
  obtain fl t where st: "scan_line chk lim ipb s l = (fl, t)"
    by (cases "scan_line chk lim ipb s l")
  show ?case
  proof (cases fl)
    case Continue
    have "linesRead t = linesRead s + (if is_totals chk l then 0 else 1)"
      using st Continue by (simp add: scan_line_lines)
    moreover have "linesRead s' = linesRead t + int (length (data_lines chk ls))"
      using Cons.IH[of t] Cons.prems st Continue by simp
    ultimately show ?thesis by (simp add: data_lines_def)
  next
    case Break
    then show ?thesis using Cons.prems st by simp
  next
    case (Die e)
    then show ?thesis using Cons.prems st by simp
  qed
qed

lemma scan_loop_hit_limit:
  "scan_loop chk lim ipb ls s = (HitLimit, s') \<Longrightarrow> counted s \<Longrightarrow>
   linesRead s' mod 2 \<noteq> 0 \<or> itemsRead s' \<noteq> totalPoints s'"
proof (induction ls arbitrary: s)
  case Nil
  then show ?case by simp
next
  case (Cons l ls)
  obtain fl t where st: "scan_line chk lim ipb s l = (fl, t)"
    by (cases "scan_line chk lim ipb s l")
  have ct: "counted t" using st Cons.prems(2) by (rule scan_line_counted)
  show ?case
  proof (cases fl)
    case Continue
    then show ?thesis using Cons.IH[OF _ ct] Cons.prems(1) st by simp
  next
    case Break
    then show ?thesis using Cons.prems st scan_line_break[of chk lim ipb s l s'] by simp
  next
    case (Die e)
    then show ?thesis using Cons.prems(1) st by simp
  qed
qed

lemma counted_init: "counted (scan_init pl)"
  by (simp add: counted_def scan_init_def)

lemma linesRead_init: "linesRead (scan_init pl) = 0"
  by (simp add: scan_init_def)

lemma scan_finish_returned:
  "scan_finish err s = (evs, Returned items bytes vals) \<Longrightarrow>
   linesRead s mod 2 = 0 \<and> itemsRead s = totalPoints s \<and> items = itemsRead s
   \<and> bytes = bytesRead s \<and> vals = totalValues s \<and> err = None"
  by (auto simp: scan_finish_def Let_def split: option.splits if_splits)

text \<open>
  A \<^verbatim>\<open>scan\<close> that returns has read its input to the end: it was not cut short by the
  item limit and did not exit inside the loop.
\<close>

lemma scan_returned_exhausted:
  assumes "scan chk lim ipb pl inp = (evs, Returned items bytes vals)"
  shows "\<exists>s. scan_loop chk lim ipb (lines inp) (scan_init pl) = (Exhausted, s)
            \<and> scan_finish (scanErr inp) s = (evs, Returned items bytes vals)"
proof -
  obtain ex s where lp: "scan_loop chk lim ipb (lines inp) (scan_init pl) = (ex, s)"
    by (cases "scan_loop chk lim ipb (lines inp) (scan_init pl)")
  show ?thesis
  proof (cases ex)
    case Exhausted
    then show ?thesis using assms lp by (simp add: scan_def)
  next
    case HitLimit
    have fin: "scan_finish (scanErr inp) s = (evs, Returned items bytes vals)"
      using assms lp HitLimit by (simp add: scan_def)
    have "linesRead s mod 2 \<noteq> 0 \<or> itemsRead s \<noteq> totalPoints s"
      using lp HitLimit scan_loop_hit_limit[of chk lim ipb "lines inp" "scan_init pl" s]
      by (simp add: counted_init)
    then show ?thesis using scan_finish_returned[OF fin] by blast
  next
    case (Died e)
    then show ?thesis using assms lp by (simp add: scan_def)
  qed
qed

lemma scan_returned_items:
  assumes "scan chk lim ipb pl inp = (evs, Returned items bytes vals)"
  shows "even (length (data_lines chk (lines inp)))
         \<and> items = int (length (data_lines chk (lines inp))) div 2"
proof -
  obtain s where lp: "scan_loop chk lim ipb (lines inp) (scan_init pl) = (Exhausted, s)"
    and fin: "scan_finish (scanErr inp) s = (evs, Returned items bytes vals)"
    using scan_returned_exhausted[OF assms] by blast
  have n: "linesRead s = int (length (data_lines chk (lines inp)))"
    using scan_loop_exhausted_lines[OF lp] by (simp add: linesRead_init)
  have c: "counted s"
    using scan_loop_counted[OF lp counted_init] .
  have "linesRead s mod 2 = 0" and "items = itemsRead s"
    using scan_finish_returned[OF fin] by simp_all
  then show ?thesis using n c by (simp add: counted_def even_iff_mod_2_eq_zero) presburger
qed

section \<open>The batches of scan\<close>

lemma batches_append: "batches (xs @ ys) = batches xs @ batches ys"
  by (induction xs rule: batches.induct) simp_all

lemma pool_get_clean:
  "pool_clean p \<Longrightarrow> fst (pool_get p) = [] \<and> pool_clean (snd (pool_get p))"
  by (cases p) (simp_all add: pool_clean_def new_buffer_def)

lemma count_line: "newline \<notin> set l \<Longrightarrow> count_list (b @ l @ [newline]) newline = count_list b newline + 1"
  by (simp add: count_list_0_iff)

lemma within_snoc: "within B (evs @ [BatchSent b]) = (within B evs \<and> batch_items b \<le> B)"
  by (simp add: within_def batches_append)

lemma scan_line_assembling:
  assumes "assembling B s" and "newline \<notin> set l" and "within B (events s)"
    and "scan_line chk lim B s l = (fl, s')"
  shows "within B (events s') \<and> (fl = Continue \<longrightarrow> assembling B s')
         \<and> (fl = Break \<longrightarrow> itemsThisBatch s' = 0)"
proof -
  have c: "count_list (buf s @ l @ [newline]) newline = count_list (buf s) newline + 1"
    using assms(2) by (rule count_line)
  have pg: "fst (pool_get (bufPool s)) = []" "pool_clean (snd (pool_get (bufPool s)))"
    using assms(1) pool_get_clean[of "bufPool s"] by (simp_all add: assembling_def)
  show ?thesis
    using assms(1,3,4) c pg
    by (auto simp: scan_line_def Let_def assembling_def within_snoc batch_items_def split: prod.splits option.splits if_splits)
       presburger+
qed

lemma scan_loop_assembling:
  assumes "scan_loop chk lim B ls s = (ex, s')"
    and "assembling B s" and "list_all (\<lambda>l. newline \<notin> set l) ls" and "within B (events s)"
  shows "within B (events s') \<and> (ex = Exhausted \<longrightarrow> assembling B s')
         \<and> (ex = HitLimit \<longrightarrow> itemsThisBatch s' = 0)"
  using assms
proof (induction ls arbitrary: s)
  case Nil
  then show ?case by simp
next
  case (Cons l ls)
  obtain fl t where st: "scan_line chk lim B s l = (fl, t)"
    by (cases "scan_line chk lim B s l")
  have nl: "newline \<notin> set l" and rest: "list_all (\<lambda>l. newline \<notin> set l) ls"
    using Cons.prems(3) by simp_all
  have step: "within B (events t) \<and> (fl = Continue \<longrightarrow> assembling B t)
         \<and> (fl = Break \<longrightarrow> itemsThisBatch t = 0)"
    using scan_line_assembling[OF Cons.prems(2) nl Cons.prems(4) st] .
  show ?case
  proof (cases fl)
    case Continue
    then have "scan_loop chk lim B ls t = (ex, s')" using Cons.prems(1) st by simp
    then show ?thesis using Cons.IH[of t] step Continue rest by simp
  next
    case Break
    then show ?thesis using Cons.prems(1) st step by auto
  next
    case (Die e)
    then show ?thesis using Cons.prems(1) st step by auto
  qed
qed

lemma assembling_init: "1 \<le> B \<Longrightarrow> pool_clean pl \<Longrightarrow> assembling B (scan_init pl)"
  using pool_get_clean[of pl] by (simp add: assembling_def scan_init_def)

lemma mod_next: "0 < (B::int) \<Longrightarrow> x mod B + 1 \<noteq> B \<Longrightarrow> (x + 1) mod B = x mod B + 1"
proof -
  assume b: "0 < B" and n: "x mod B + 1 \<noteq> B"
  have "x mod B < B" using b by simp
  then have lt: "x mod B + 1 < B" using n by simp
  have "(x + 1) mod B = (x mod B + 1) mod B" by (simp add: mod_add_left_eq)
  also have "\<dots> = x mod B + 1" using lt b by (simp add: mod_pos_pos_trivial)
  finally show ?thesis .
qed

lemma mod_wrap: "0 < (B::int) \<Longrightarrow> x mod B + 1 = B \<Longrightarrow> (x + 1) mod B = 0"
proof -
  assume b: "0 < B" and n: "x mod B + 1 = B"
  have "(x + 1) mod B = (x mod B + 1) mod B" by (simp add: mod_add_left_eq)
  then show ?thesis using n by simp
qed

lemma scan_line_in_step:
  assumes "in_step B s" and "scan_line chk lim B s l = (Continue, s')"
  shows "in_step B s'"
proof -
  have b: "0 < B" using assms(1) by (simp add: in_step_def)
  have "itemsRead s mod B < B" using b by simp
  then have lt: "itemsThisBatch s < B" using assms(1) by (simp only: in_step_def)
  have m: "itemsRead s mod B + 1 \<noteq> B \<Longrightarrow> (itemsRead s + 1) mod B = itemsRead s mod B + 1"
      "itemsRead s mod B + 1 = B \<Longrightarrow> (itemsRead s + 1) mod B = 0"
    using b mod_next[of B "itemsRead s"] mod_wrap[of B "itemsRead s"] by simp_all
  show ?thesis
    using assms lt m
    by (auto simp: scan_line_def Let_def in_step_def split: prod.splits option.splits if_splits)
qed

lemma scan_loop_in_step:
  "scan_loop chk lim B ls s = (Exhausted, s') \<Longrightarrow> in_step B s \<Longrightarrow> in_step B s'"
proof (induction ls arbitrary: s)
  case Nil
  then show ?case by simp
next
  case (Cons l ls)
  obtain fl t where st: "scan_line chk lim B s l = (fl, t)"
    by (cases "scan_line chk lim B s l")
  show ?case
  proof (cases fl)
    case Continue
    have "in_step B t" using scan_line_in_step[OF Cons.prems(2)] st Continue by simp
    then show ?thesis using Cons.IH[of t] Cons.prems(1) st Continue by simp
  next
    case Break
    then show ?thesis using Cons.prems(1) st by simp
  next
    case (Die e)
    then show ?thesis using Cons.prems(1) st by simp
  qed
qed

lemma assembling_items:
  "assembling B s \<Longrightarrow> batch_items (buf s) = itemsThisBatch s \<and> itemsThisBatch s < B"
  by (simp add: assembling_def batch_items_def)

lemma in_step_init: "1 \<le> B \<Longrightarrow> in_step B (scan_init pl)"
  by (simp add: in_step_def scan_init_def)

lemma scan_finish_within:
  "within B (events s) \<Longrightarrow> (0 < itemsThisBatch s \<longrightarrow> batch_items (buf s) \<le> B) \<Longrightarrow>
   within B (fst (scan_finish err s))"
  by (auto simp: scan_finish_def Let_def within_def batches_append split: option.splits)

lemma within_init: "within B (events (scan_init pl))"
  by (simp add: within_def scan_init_def)

section \<open>The requests of the workers\<close>

lemma process_batch_host:
  "doLoad opts \<Longrightarrow> process_batch opts gz wr host sink label (n, w) b = Inr (n', w', p) \<Longrightarrow>
   map rq_host (written w') = map rq_host (written w) @ [host]"
  by (auto simp: process_batch_def Let_def split: option.splits if_splits)

lemma upt_shift: "[k..<k + Suc n] = k # [Suc k..<Suc k + n]"
  by (simp add: upt_conv_Cons del: upt_Suc)

lemma drain_hosts:
  "doLoad opts \<Longrightarrow> drain opts gz wr hosts who k bs (seen, w, pts) = Inr (seen', w', pts') \<Longrightarrow>
   map rq_host (written w') = map rq_host (written w) @ map (\<lambda>j. hosts (who j)) [k..<k + length bs]"
proof (induction bs arbitrary: k seen w pts)
  case Nil
  then show ?case by simp
next
  case (Cons b bs)
  let ?r = "process_batch opts gz wr (hosts (who k)) (telemetryHost opts \<noteq> []) (decimal (who k)) (seen (who k), w) b"
  show ?case
  proof (cases ?r)
    case (Inl e)
    then show ?thesis using Cons.prems(2) by simp
  next
    case (Inr res)
    obtain n w1 p where res: "res = (n, w1, p)" by (cases res)
    have one: "map rq_host (written w1) = map rq_host (written w) @ [hosts (who k)]"
      using process_batch_host[OF Cons.prems(1)] Inr res by simp
    have "drain opts gz wr hosts who (Suc k) bs
            (seen(who k := n), w1, pts @ (case p of None \<Rightarrow> [] | Some x \<Rightarrow> [x])) = Inr (seen', w', pts')"
      using Cons.prems(2) Inr res by simp
    then have "map rq_host (written w') =
        map rq_host (written w1) @ map (\<lambda>j. hosts (who j)) [Suc k..<Suc k + length bs]"
      using Cons.IH[OF Cons.prems(1)] by simp
    then show ?thesis using one upt_shift[of k "length bs"] by (simp del: upt_Suc)
  qed
qed

section \<open>Properties of scan\<close>

subsection \<open>Totals records\<close>

text \<open>
  Claim C9. A line for which \<^verbatim>\<open>CheckTotalValues\<close> returns a positive \<^verbatim>\<open>totalPoints\<close> or
  \<^verbatim>\<open>totalValues\<close> is skipped by \<^verbatim>\<open>scan\<close>: the iteration only stores the two totals and
  continues. The line is not written to the buffer, no batch is sent, and
  \<^verbatim>\<open>linesRead\<close>, \<^verbatim>\<open>itemsRead\<close>, \<^verbatim>\<open>bytesRead\<close> and \<^verbatim>\<open>itemsThisBatch\<close> keep their values.
\<close>

theorem totals_line_skipped:
  assumes "chk l = (tp, tv, err)" and "tp > 0 \<or> tv > 0"
  shows "scan_line chk lim B s l = (Continue, s\<lparr>totalPoints := tp, totalValues := tv\<rparr>)
       \<and> buf (snd (scan_line chk lim B s l)) = buf s
       \<and> events (snd (scan_line chk lim B s l)) = events s
       \<and> linesRead (snd (scan_line chk lim B s l)) = linesRead s
       \<and> itemsRead (snd (scan_line chk lim B s l)) = itemsRead s
       \<and> bytesRead (snd (scan_line chk lim B s l)) = bytesRead s
       \<and> itemsThisBatch (snd (scan_line chk lim B s l)) = itemsThisBatch s"
proof -
  have "is_totals chk l" using assms by (simp add: is_totals_def)
  then have "scan_line chk lim B s l = (Continue, s\<lparr>totalPoints := tp, totalValues := tv\<rparr>)"
    using assms(1) by (simp add: scan_line_totals)
  then show ?thesis by simp
qed

theorem totals_line_skipped_witness:
  "sample_check 3 6 ''T'' = (3, 6, None) \<and> ((3::int) > 0 \<or> (6::int) > 0)
   \<and> scan_line (sample_check 3 6) (- 1) 2 (scan_init []) ''T''
       = (Continue, (scan_init [])\<lparr>totalPoints := 3, totalValues := 6\<rparr>)
   \<and> linesRead (snd (scan_line (sample_check 3 6) (- 1) 2 (scan_init []) ''T'')) = 0"
  using totals_line_skipped[of "sample_check 3 6" "''T''" 3 6 None "- 1" 2 "scan_init []"]
  by (simp add: sample_check_def scan_init_def)

subsection \<open>Items read\<close>

text \<open>
  Claim C7. The lines that count are the lines of data, the ones \<^verbatim>\<open>linesRead\<close> counts
  (totals records are skipped). When the loop of \<^verbatim>\<open>scan\<close> reads its input to the end,
  not cut short by the item limit, \<^verbatim>\<open>itemsRead\<close> is the number of lines of data divided
  by 2; and whenever \<^verbatim>\<open>scan\<close> returns, the items-read it reports is that number, the
  number of lines of data being a multiple of 2.
\<close>

theorem scan_items_read:
  "(\<forall>s. scan_loop chk lim B (lines inp) (scan_init pl) = (Exhausted, s)
        \<longrightarrow> itemsRead s = int (length (data_lines chk (lines inp))) div 2)
   \<and> (\<forall>evs items bytes vals. scan chk lim B pl inp = (evs, Returned items bytes vals)
        \<longrightarrow> items = int (length (data_lines chk (lines inp))) div 2
            \<and> even (length (data_lines chk (lines inp))))"
proof -
  have "itemsRead s = int (length (data_lines chk (lines inp))) div 2"
    if lp: "scan_loop chk lim B (lines inp) (scan_init pl) = (Exhausted, s)" for s
  proof -
    have "linesRead s = int (length (data_lines chk (lines inp)))"
      using scan_loop_exhausted_lines[OF lp] by (simp add: linesRead_init)
    moreover have "counted s" using scan_loop_counted[OF lp counted_init] .
    ultimately show ?thesis by (simp add: counted_def)
  qed
  then show ?thesis using scan_returned_items by blast
qed

theorem scan_items_read_witness:
  "scan (sample_check 2 5) (- 1) 1 [] \<lparr>lines = [''a'', ''b'', ''c'', ''d'', ''T''], scanErr = None\<rparr>
     = ([BatchSent (''a'' @ [newline] @ ''b'' @ [newline]),
         BatchSent (''c'' @ [newline] @ ''d'' @ [newline]), InputDone], Returned 2 8 5)
   \<and> (2::int) = int (length (data_lines (sample_check 2 5) [''a'', ''b'', ''c'', ''d'', ''T''])) div 2"
  using scan_items_read[of "sample_check 2 5" "- 1" 1
          "\<lparr>lines = [''a'', ''b'', ''c'', ''d'', ''T''], scanErr = None\<rparr>" "[]"]
  by (simp add: sample_check_def scan_def scan_init_def scan_line_def scan_finish_def new_buffer_def)

lemma main_completed_scan:
  "main_pipeline opts chk gz wr who inp = Completed i b v w pts \<Longrightarrow>
   \<exists>evs. scan chk (itemLimit opts) (batchSize opts) [] inp = (evs, Returned i b v)"
  by (auto simp: main_pipeline_def split: if_splits prod.splits scan_result.splits sum.splits)

subsection \<open>A line count that is not a multiple of 2\<close>

text \<open>
  Claim C8. When the number of lines of data is not a multiple of 2, \<^verbatim>\<open>scan\<close> never
  returns: it ends in a fatal exit, which is the bad-bulk-format exit whenever the
  input was read to its end without a read error; and the run never reaches its
  summary line.
\<close>

theorem odd_lines_fatal:
  assumes "odd (length (data_lines chk (lines inp)))"
  shows "(\<exists>e. snd (scan chk lim B pl inp) = Fatal e)
       \<and> (fst (scan_loop chk lim B (lines inp) (scan_init pl)) = Exhausted \<and> scanErr inp = None
            \<longrightarrow> snd (scan chk lim B pl inp) = Fatal BadBulkFormat)
       \<and> (\<forall>i b v w pts. main_pipeline opts chk gz wr who inp \<noteq> Completed i b v w pts)"
proof -
  have never: "scan chk lim' B' pl' inp \<noteq> (evs, Returned i b v)" for lim' B' pl' evs i b v
    using scan_returned_items[of chk lim' B' pl' inp evs i b v] assms by blast
  have a: "\<exists>e. snd (scan chk lim B pl inp) = Fatal e"
  proof (cases "scan chk lim B pl inp")
    case (Pair evs r)
    then show ?thesis using never[of lim B pl evs] by (cases r) auto
  qed
  have b: "snd (scan chk lim B pl inp) = Fatal BadBulkFormat"
    if h: "fst (scan_loop chk lim B (lines inp) (scan_init pl)) = Exhausted \<and> scanErr inp = None"
  proof -
    obtain s where lp: "scan_loop chk lim B (lines inp) (scan_init pl) = (Exhausted, s)"
      using h by (cases "scan_loop chk lim B (lines inp) (scan_init pl)") simp
    have "linesRead s = int (length (data_lines chk (lines inp)))"
      using scan_loop_exhausted_lines[OF lp] by (simp add: linesRead_init)
    then have "linesRead s mod 2 \<noteq> 0" using assms by presburger
    then show ?thesis using lp h by (simp add: scan_def scan_finish_def Let_def)
  qed
  have c: "main_pipeline opts chk gz wr who inp \<noteq> Completed i b v w pts" for i b v w pts
    using main_completed_scan[of opts chk gz wr who inp i b v w pts] never by blast
  show ?thesis using a b c by blast
qed

theorem odd_lines_fatal_witness:
  "odd (length (data_lines (sample_check 1 1) [''a'', ''b'', ''c'', ''T'']))
   \<and> snd (scan (sample_check 1 1) (- 1) 1 [] \<lparr>lines = [''a'', ''b'', ''c'', ''T''], scanErr = None\<rparr>)
       = Fatal BadBulkFormat
   \<and> main_pipeline sample_options (sample_check 1 1) id sample_writer id
        \<lparr>lines = [''a'', ''b'', ''c'', ''T''], scanErr = None\<rparr> = Exit BadBulkFormat"
  using odd_lines_fatal[of "sample_check 1 1" "\<lparr>lines = [''a'', ''b'', ''c'', ''T''], scanErr = None\<rparr>"
          "- 1" 1 "[]" sample_options id sample_writer id]
  by (simp add: sample_check_def sample_options_def data_lines_def is_totals_def main_pipeline_def
        scan_def scan_init_def scan_line_def scan_finish_def new_buffer_def)

subsection \<open>The batches sent\<close>

lemma scan_line_no_break: "lim < 0 \<Longrightarrow> fst (scan_line chk lim B s l) \<noteq> Break"
  by (auto simp: scan_line_def Let_def split: prod.splits option.splits)

lemma scan_line_no_die:
  "is_totals chk l \<or> snd (snd (chk l)) = None \<Longrightarrow> fst (scan_line chk lim B s l) \<noteq> Die e"
  by (auto simp: scan_line_def Let_def is_totals_def split: prod.splits option.splits)

lemma scan_loop_exhausts:
  "lim < 0 \<Longrightarrow> list_all (\<lambda>l. is_totals chk l \<or> snd (snd (chk l)) = None) ls \<Longrightarrow>
   fst (scan_loop chk lim B ls s) = Exhausted"
proof (induction ls arbitrary: s)
  case Nil
  then show ?case by simp
next
  case (Cons l ls)
  obtain fl t where st: "scan_line chk lim B s l = (fl, t)"
    by (cases "scan_line chk lim B s l")
  have ok: "is_totals chk l \<or> snd (snd (chk l)) = None"
    and rest: "list_all (\<lambda>l. is_totals chk l \<or> snd (snd (chk l)) = None) ls"
    using Cons.prems(2) by simp_all
  have "fl \<noteq> Break" using scan_line_no_break[OF Cons.prems(1), of chk B s l] st by simp
  moreover have "fl \<noteq> Die e" for e using scan_line_no_die[OF ok, of lim B s e] st by simp
  ultimately have "fl = Continue" by (cases fl) auto
  then show ?case using Cons.IH[OF Cons.prems(1) rest, of t] st by simp
qed

text \<open>
  Claim C5. For every batch size \<open>B \<ge> 1\<close>, every batch \<^verbatim>\<open>scan\<close> sends on \<^verbatim>\<open>batchChan\<close>
  holds at most \<open>B\<close> items. The pool is one whose buffers were reset, as \<^verbatim>\<open>main\<close> and the
  workers keep it, and the lines contain no newline, as those of a \<^verbatim>\<open>bufio.Scanner\<close>.
  When the input ends in the middle of a batch, that is, when it is read to its end
  without a read error and the number of its items is not a multiple of \<open>B\<close>, the
  partial batch is sent as the last one, before \<^verbatim>\<open>inputDone\<close> is closed, and holds the
  items left over. The input is read to its end whenever there is no item limit and
  no line makes \<^verbatim>\<open>CheckTotalValues\<close> fail.
\<close>

theorem scan_batch_size:
  assumes "1 \<le> B" and "pool_clean pl" and "list_all (\<lambda>l. newline \<notin> set l) (lines inp)"
  shows "list_all (\<lambda>b. batch_items b \<le> B) (batches (fst (scan chk lim B pl inp)))
     \<and> (\<forall>s. scan_loop chk lim B (lines inp) (scan_init pl) = (Exhausted, s)
              \<and> scanErr inp = None
              \<and> 0 < (int (length (data_lines chk (lines inp))) div 2) mod B
          \<longrightarrow> fst (scan chk lim B pl inp) = events s @ [BatchSent (buf s), InputDone]
              \<and> batch_items (buf s) = (int (length (data_lines chk (lines inp))) div 2) mod B)
     \<and> (lim < 0 \<and> list_all (\<lambda>l. is_totals chk l \<or> snd (snd (chk l)) = None) (lines inp)
          \<longrightarrow> fst (scan_loop chk lim B (lines inp) (scan_init pl)) = Exhausted)"
proof -
  obtain ex s where lp: "scan_loop chk lim B (lines inp) (scan_init pl) = (ex, s)"
    by (cases "scan_loop chk lim B (lines inp) (scan_init pl)")
  have inv: "within B (events s) \<and> (ex = Exhausted \<longrightarrow> assembling B s)
         \<and> (ex = HitLimit \<longrightarrow> itemsThisBatch s = 0)"
    using scan_loop_assembling[OF lp assembling_init[OF assms(1,2)] assms(3) within_init] .
  have "within B (fst (scan chk lim B pl inp))"
  proof (cases ex)
    case Exhausted
    then have "batch_items (buf s) \<le> B" using inv assembling_items[of B s] by simp
    then show ?thesis using lp Exhausted inv by (simp add: scan_def scan_finish_within)
  next
    case HitLimit
    then show ?thesis using lp inv by (simp add: scan_def scan_finish_within)
  next
    case (Died e)
    then show ?thesis using lp inv by (simp add: scan_def)
  qed
  then have bounded: "list_all (\<lambda>b. batch_items b \<le> B) (batches (fst (scan chk lim B pl inp)))"
    by (simp add: within_def)
  have partial: "fst (scan chk lim B pl inp) = events t @ [BatchSent (buf t), InputDone]
              \<and> batch_items (buf t) = (int (length (data_lines chk (lines inp))) div 2) mod B"
    if h: "scan_loop chk lim B (lines inp) (scan_init pl) = (Exhausted, t)
              \<and> scanErr inp = None
              \<and> 0 < (int (length (data_lines chk (lines inp))) div 2) mod B" for t
  proof -
    have lt: "scan_loop chk lim B (lines inp) (scan_init pl) = (Exhausted, t)"
      using h by simp
    have "assembling B t"
      using scan_loop_assembling[OF lt assembling_init[OF assms(1,2)] assms(3) within_init]
      by simp
    then have items: "batch_items (buf t) = itemsThisBatch t"
      using assembling_items by simp
    have "in_step B t" using scan_loop_in_step[OF lt in_step_init[OF assms(1)]] .
    moreover have "counted t" using scan_loop_counted[OF lt counted_init] .
    moreover have "linesRead t = int (length (data_lines chk (lines inp)))"
      using scan_loop_exhausted_lines[OF lt] by (simp add: linesRead_init)
    ultimately have m: "itemsThisBatch t = (int (length (data_lines chk (lines inp))) div 2) mod B"
      by (simp add: in_step_def counted_def)
    then have pos: "0 < itemsThisBatch t" using h by simp
    have "fst (scan chk lim B pl inp) = events t @ [BatchSent (buf t), InputDone]"
      using h lt pos by (simp add: scan_def scan_finish_def Let_def)
    then show ?thesis using items m by simp
  qed
  have reads: "fst (scan_loop chk lim B (lines inp) (scan_init pl)) = Exhausted"
    if "lim < 0 \<and> list_all (\<lambda>l. is_totals chk l \<or> snd (snd (chk l)) = None) (lines inp)"
    using that scan_loop_exhausts by blast
  show ?thesis using bounded partial reads by blast
qed

theorem scan_batch_size_witness:
  "(1::int) \<le> 2 \<and> pool_clean []
   \<and> list_all (\<lambda>l. newline \<notin> set l) [''a'', ''b'', ''c'', ''d'', ''e'', ''f'', ''T'']
   \<and> 0 < (int (length (data_lines (sample_check 3 6)
              [''a'', ''b'', ''c'', ''d'', ''e'', ''f'', ''T''])) div 2) mod 2
   \<and> fst (scan_loop (sample_check 3 6) (- 1) 2 [''a'', ''b'', ''c'', ''d'', ''e'', ''f'', ''T'']
            (scan_init [])) = Exhausted
   \<and> fst (scan (sample_check 3 6) (- 1) 2 []
            \<lparr>lines = [''a'', ''b'', ''c'', ''d'', ''e'', ''f'', ''T''], scanErr = None\<rparr>)
       = [BatchSent (''a'' @ [newline] @ ''b'' @ [newline] @ ''c'' @ [newline] @ ''d'' @ [newline]),
          BatchSent (''e'' @ [newline] @ ''f'' @ [newline]), InputDone]
   \<and> list_all (\<lambda>b. batch_items b \<le> 2)
        (batches (fst (scan (sample_check 3 6) (- 1) 2 []
            \<lparr>lines = [''a'', ''b'', ''c'', ''d'', ''e'', ''f'', ''T''], scanErr = None\<rparr>)))
   \<and> batch_items (''e'' @ [newline] @ ''f'' @ [newline]) = 1"
  using scan_batch_size[of 2 "[]"
          "\<lparr>lines = [''a'', ''b'', ''c'', ''d'', ''e'', ''f'', ''T''], scanErr = None\<rparr>"
          "sample_check 3 6" "- 1"]
  by (simp add: sample_check_def scan_def scan_init_def scan_line_def scan_finish_def
        new_buffer_def pool_clean_def newline_def batch_items_def data_lines_def is_totals_def)

subsection \<open>The done signal\<close>

lemma scan_line_sends:
  "scan_line chk lim B s l = (fl, s') \<Longrightarrow> events s = map BatchSent (batches (events s)) \<Longrightarrow>
   events s' = map BatchSent (batches (events s'))"
  by (auto simp: scan_line_def Let_def batches_append split: prod.splits option.splits if_splits)

lemma scan_loop_sends:
  "scan_loop chk lim B ls s = (ex, s') \<Longrightarrow> events s = map BatchSent (batches (events s)) \<Longrightarrow>
   events s' = map BatchSent (batches (events s'))"
proof (induction ls arbitrary: s)
  case Nil
  then show ?case by simp
next
  case (Cons l ls)
  obtain fl t where st: "scan_line chk lim B s l = (fl, t)"
    by (cases "scan_line chk lim B s l")
  have t: "events t = map BatchSent (batches (events t))"
    using scan_line_sends[OF st Cons.prems(2)] .
  show ?case
  proof (cases fl)
    case Continue
    then show ?thesis using Cons.IH[OF _ t] Cons.prems(1) st by simp
  next
    case Break
    then show ?thesis using Cons.prems(1) st t by simp
  next
    case (Die e)
    then show ?thesis using Cons.prems(1) st t by simp
  qed
qed

lemma scan_line_die:
  "scan_line chk lim B s l = (Die e, s') \<Longrightarrow> \<exists>m. e = TotalsError m"
  by (auto simp: scan_line_def Let_def split: prod.splits option.splits if_splits)

lemma scan_loop_died:
  "scan_loop chk lim B ls s = (Died e, s') \<Longrightarrow> \<exists>m. e = TotalsError m"
proof (induction ls arbitrary: s)
  case Nil
  then show ?case by simp
next
  case (Cons l ls)
  obtain fl t where st: "scan_line chk lim B s l = (fl, t)"
    by (cases "scan_line chk lim B s l")
  show ?case
  proof (cases fl)
    case Continue
    then show ?thesis using Cons.IH[of t] Cons.prems st by simp
  next
    case Break
    then show ?thesis using Cons.prems st by simp
  next
    case (Die e')
    then show ?thesis using Cons.prems st scan_line_die[of chk lim B s l e' t] by simp
  qed
qed

lemma count_sends: "count_list (map BatchSent bs) InputDone = 0"
  by (induction bs) simp_all

lemma scan_finish_done:
  assumes "events s = map BatchSent (batches (events s))"
  shows "fst (scan_finish err s) = map BatchSent (batches (fst (scan_finish err s)))
           @ (if after_done (snd (scan_finish err s)) then [InputDone] else [])"
proof (cases err)
  case None
  let ?evs = "if itemsThisBatch s > 0 then events s @ [BatchSent (buf s)] else events s"
  have e: "?evs = map BatchSent (batches ?evs)"
    using assms by (simp add: batches_append)
  have f: "fst (scan_finish err s) = ?evs @ [InputDone]"
    using None by (simp add: scan_finish_def Let_def)
  have a: "after_done (snd (scan_finish err s))"
    using None by (simp add: scan_finish_def Let_def)
  have "batches (?evs @ [InputDone]) = batches ?evs"
    by (simp only: batches_append batches.simps append_Nil2)
  then show ?thesis using e f a by (simp only: if_True) 
next
  case (Some m)
  then show ?thesis using assms by (simp add: scan_finish_def)
qed

text \<open>
  Claim C10, as the code has it. \<^verbatim>\<open>scan\<close> closes \<^verbatim>\<open>inputDone\<close> after its last send and
  before the two checks at its end. So in a run that ends with the return of \<^verbatim>\<open>scan\<close>,
  with the bad-bulk-format exit or with the incorrect-number-of-points exit the signal
  is given exactly once, as the last channel event before that end; in a run that
  exits on an error of \<^verbatim>\<open>CheckTotalValues\<close> or on a read error it is never given.
\<close>

theorem input_done_once:
  "fst (scan chk lim B pl inp)
     = map BatchSent (batches (fst (scan chk lim B pl inp)))
       @ (if after_done (snd (scan chk lim B pl inp)) then [InputDone] else [])
   \<and> count_list (fst (scan chk lim B pl inp)) InputDone
     = (if after_done (snd (scan chk lim B pl inp)) then 1 else 0)"
proof -
  obtain ex s where lp: "scan_loop chk lim B (lines inp) (scan_init pl) = (ex, s)"
    by (cases "scan_loop chk lim B (lines inp) (scan_init pl)")
  have s: "events s = map BatchSent (batches (events s))"
    using scan_loop_sends[OF lp] by (simp add: scan_init_def)
  have shape: "fst (scan chk lim B pl inp)
     = map BatchSent (batches (fst (scan chk lim B pl inp)))
       @ (if after_done (snd (scan chk lim B pl inp)) then [InputDone] else [])"
  proof (cases ex)
    case Exhausted
    then show ?thesis using lp scan_finish_done[OF s] by (simp add: scan_def)
  next
    case HitLimit
    then show ?thesis using lp scan_finish_done[OF s] by (simp add: scan_def)
  next
    case (Died e)
    have "\<exists>m. e = TotalsError m" using scan_loop_died lp Died by blast
    then have "\<not> after_done (Fatal e)" by auto
    then show ?thesis using lp Died s by (simp add: scan_def)
  qed
  have "count_list (fst (scan chk lim B pl inp)) InputDone
     = (if after_done (snd (scan chk lim B pl inp)) then 1 else 0)"
    by (subst shape) (simp add: count_sends)
  then show ?thesis using shape by blast
qed

theorem input_done_once_witness:
  "fst (scan (sample_check 1 1) (- 1) 1 [] \<lparr>lines = [''a'', ''b'', ''c'', ''T''], scanErr = None\<rparr>)
     = [BatchSent (''a'' @ [newline] @ ''b'' @ [newline]), InputDone]
   \<and> snd (scan (sample_check 1 1) (- 1) 1 [] \<lparr>lines = [''a'', ''b'', ''c'', ''T''], scanErr = None\<rparr>)
     = Fatal BadBulkFormat
   \<and> count_list (fst (scan (sample_check 1 1) (- 1) 1 []
        \<lparr>lines = [''a'', ''b'', ''c'', ''T''], scanErr = None\<rparr>)) InputDone = 1"
  using input_done_once[of "sample_check 1 1" "- 1" 1 "[]"
          "\<lparr>lines = [''a'', ''b'', ''c'', ''T''], scanErr = None\<rparr>"]
  by (simp add: sample_check_def scan_def scan_init_def scan_line_def scan_finish_def new_buffer_def)

text \<open>
  Claim C10 as stated says that the signal is given once in every run, ahead of any
  fatal exit on malformed input. Two runs in which it is never given: one that ends on
  a read error of the scanner, and one that ends on a totals record that does not
  parse; each has sent a batch and exits inside or right after the loop.
\<close>

theorem no_done_before_loop_exit:
  "scan (sample_check 1 1) (- 1) 1 []
      \<lparr>lines = [''a'', ''b''], scanErr = Some ''token too long''\<rparr>
     = ([BatchSent (''a'' @ [newline] @ ''b'' @ [newline])],
        Fatal (ErrorReadingInput ''token too long''))
   \<and> scan (sample_check 1 1) (- 1) 1 [] \<lparr>lines = [''a'', ''b'', ''E'', ''T''], scanErr = None\<rparr>
     = ([BatchSent (''a'' @ [newline] @ ''b'' @ [newline])], Fatal (TotalsError ''bad totals''))
   \<and> InputDone \<notin> set [BatchSent (''a'' @ [newline] @ ''b'' @ [newline])]"
  by (simp add: sample_check_def scan_def scan_init_def scan_line_def scan_finish_def new_buffer_def)

subsection \<open>The item limit\<close>

text \<open>
  A run that leaves the loop on the item limit never returns from \<^verbatim>\<open>scan\<close>: the checks
  at the end are made all the same, and one of them fails.
\<close>

lemma scan_hit_limit_fatal:
  assumes "scan_loop chk lim B (lines inp) (scan_init pl) = (HitLimit, s)"
  shows "\<exists>e. snd (scan chk lim B pl inp) = Fatal e"
proof (cases "scan chk lim B pl inp")
  case (Pair evs r)
  show ?thesis
  proof (cases r)
    case (Returned i b v)
    then show ?thesis using scan_returned_exhausted[of chk lim B pl inp evs i b v] Pair assms by auto
  next
    case (Fatal e)
    then show ?thesis using Pair by simp
  qed
qed

text \<open>
  Claim C1 says that a run cut short by the item limit skips the expected-total check
  and completes. The code makes the check: with an item limit of 1, two items and
  their totals record on stdin, \<^verbatim>\<open>scan\<close> sends the first item, closes \<^verbatim>\<open>inputDone\<close> and
  exits with "Incorrent number of read points: 1, expected: 0"; the run does not
  complete.
\<close>

theorem item_limit_run_exits:
  "scan (sample_check 2 4) 1 5000 [] \<lparr>lines = [''a'', ''b'', ''c'', ''d'', ''T''], scanErr = None\<rparr>
     = ([BatchSent (''a'' @ [newline] @ ''b'' @ [newline]), InputDone], Fatal (IncorrectPoints 1 0))
   \<and> main_pipeline (sample_options\<lparr>itemLimit := 1, batchSize := 5000\<rparr>) (sample_check 2 4) sample_gzip
        sample_writer (\<lambda>k. 0) \<lparr>lines = [''a'', ''b'', ''c'', ''d'', ''T''], scanErr = None\<rparr>
     = Exit (IncorrectPoints 1 0)"
  by (simp add: main_pipeline_def sample_options_def sample_check_def scan_def scan_init_def
        scan_line_def scan_finish_def new_buffer_def)

section \<open>Properties of the workers\<close>

subsection \<open>Bytes read and bytes written\<close>

lemma scan_line_bytes:
  "scan_line chk lim B s l = (fl, s') \<Longrightarrow> bytesRead s = bytes_sent (events s) \<Longrightarrow>
   bytesRead s' = bytes_sent (events s')"
  by (auto simp: scan_line_def Let_def bytes_sent_def batches_append
           split: prod.splits option.splits if_splits)

lemma scan_loop_bytes:
  "scan_loop chk lim B ls s = (ex, s') \<Longrightarrow> bytesRead s = bytes_sent (events s) \<Longrightarrow>
   bytesRead s' = bytes_sent (events s')"
proof (induction ls arbitrary: s)
  case Nil
  then show ?case by simp
next
  case (Cons l ls)
  obtain fl t where st: "scan_line chk lim B s l = (fl, t)"
    by (cases "scan_line chk lim B s l")
  have t: "bytesRead t = bytes_sent (events t)"
    using scan_line_bytes[OF st Cons.prems(2)] .
  show ?case
  proof (cases fl)
    case Continue
    then show ?thesis using Cons.IH[OF _ t] Cons.prems(1) st by simp
  next
    case Break
    then show ?thesis using Cons.prems(1) st t by simp
  next
    case (Die e)
    then show ?thesis using Cons.prems(1) st t by simp
  qed
qed

text \<open>
  What \<^verbatim>\<open>scan\<close> reports as \<^verbatim>\<open>bytesRead\<close> is the size of the batches it sent inside the
  loop: the batch sent after the loop, if there is one, is missing from it.
\<close>

lemma scan_bytes_read:
  assumes "scan chk lim B pl inp = (evs, Returned items bytes vals)"
  shows "\<exists>s. scan_loop chk lim B (lines inp) (scan_init pl) = (Exhausted, s)
           \<and> bytes_sent evs = bytes + (if 0 < itemsThisBatch s then int (length (buf s)) else 0)"
proof -
  obtain s where lp: "scan_loop chk lim B (lines inp) (scan_init pl) = (Exhausted, s)"
    and fin: "scan_finish (scanErr inp) s = (evs, Returned items bytes vals)"
    using scan_returned_exhausted[OF assms] by blast
  have b: "bytesRead s = bytes_sent (events s)"
    using scan_loop_bytes[OF lp] by (simp add: scan_init_def bytes_sent_def)
  have "bytes_sent evs = bytes + (if 0 < itemsThisBatch s then int (length (buf s)) else 0)"
    using fin b
    by (auto simp: scan_finish_def Let_def bytes_sent_def batches_append
             split: option.splits if_splits)
  then show ?thesis using lp by blast
qed

text \<open>
  Claim C2 says that, load enabled and gzip off, the bytes written to the servers add
  up to the \<^verbatim>\<open>bytesRead\<close> that \<^verbatim>\<open>scan\<close> reports, the last partial batch included.
  \<^verbatim>\<open>scan\<close> adds the length of a batch to \<^verbatim>\<open>bytesRead\<close> where it sends it inside the
  loop, and not where it sends the last batch after the loop: with one item and its
  totals record on stdin and a batch size of 5000, four bytes are written and
  \<^verbatim>\<open>bytesRead\<close> is 0.
\<close>

theorem final_batch_bytes_not_counted:
  "main_pipeline (sample_options\<lparr>batchSize := 5000\<rparr>) (sample_check 1 5) sample_gzip sample_writer (\<lambda>k. 0)
      \<lparr>lines = [''a'', ''b'', ''T''], scanErr = None\<rparr>
     = Completed 1 0 5
         \<lparr>pool = [[]],
          written = [\<lparr>rq_host = ''u0'', rq_body = ''a'' @ [newline] @ ''b'' @ [newline],
                      rq_gzip = False\<rparr>]\<rparr> []
   \<and> bytes_written
         \<lparr>pool = [[]],
          written = [\<lparr>rq_host = ''u0'', rq_body = ''a'' @ [newline] @ ''b'' @ [newline],
                      rq_gzip = False\<rparr>]\<rparr> = 4"
  by (simp add: main_pipeline_def sample_options_def sample_check_def sample_writer_def scan_def
        scan_init_def scan_line_def scan_finish_def new_buffer_def process_batch_def daemonUrl_def
        pool_put_def reset_def bytes_written_def)

subsection \<open>The dry run\<close>

text \<open>
  Claim C3 says that with load disabled a worker still resets the buffer of the batch
  and puts it back into the pool. The worker \<^verbatim>\<open>continue\<close>s right after counting the
  batch: the shared state, the pool with it, is left as it was, whereas the path that
  writes the batch puts the reset buffer into the pool.
\<close>

theorem dry_run_drops_buffer:
  "process_batch (opts\<lparr>doLoad := False\<rparr>) gz wr host sink label (seen, w) batch
     = Inr (seen + 1, w, None)
   \<and> process_batch sample_options sample_gzip sample_writer ''u0'' False ''0''
        (0, \<lparr>pool = [], written = []\<rparr>) ''ab''
     = Inr (1, \<lparr>pool = [[]],
                written = [\<lparr>rq_host = ''u0'', rq_body = ''ab'', rq_gzip = False\<rparr>]\<rparr>, None)
   \<and> process_batch (sample_options\<lparr>doLoad := False\<rparr>) sample_gzip sample_writer ''u0'' False ''0''
        (0, \<lparr>pool = [], written = []\<rparr>) ''ab''
     = Inr (1, \<lparr>pool = [], written = []\<rparr>, None)"
  by (simp add: process_batch_def sample_options_def sample_writer_def pool_put_def reset_def)

subsection \<open>The telemetry send\<close>

lemma process_batch_point:
  "doLoad opts \<Longrightarrow> process_batch opts gz wr host True label (n, w) b = Inr (k, w', q) \<Longrightarrow>
   \<exists>p. q = Some p"
  by (auto simp: process_batch_def Let_def split: option.splits if_splits)

lemma worker_waits:
  "w_pc c = AtSend p \<Longrightarrow> worker_run opts gz wr host sink label (replicate n False) c = c"
  by (induction n) (simp_all add: worker_step_def)

text \<open>
  Claim C4, as the code has it. After a worker has written a batch, with a telemetry
  sink, it stands at the send \<^verbatim>\<open>telemetrySink <- p\<close>, a plain channel send. While the
  channel cannot take the point the worker has no step: it stays at the send for any
  number of moments, receives no further batch and keeps the point. Once the channel
  can take it, the point is handed over and the worker is back at the head of its loop.
\<close>

theorem telemetry_send_blocks:
  assumes "doLoad opts" and "w_pc c = AtRange" and "batchChan c = b # rest"
    and "process_batch opts gz wr host True label (w_seen c, w_world c) b = Inr (k, w, q)"
  shows "\<exists>p. q = Some p
       \<and> worker_step opts gz wr host True label ready c
           = Some (c\<lparr>batchChan := rest, w_seen := k, w_world := w, w_pc := AtSend p\<rparr>)
       \<and> worker_step opts gz wr host True label False
             (c\<lparr>batchChan := rest, w_seen := k, w_world := w, w_pc := AtSend p\<rparr>) = None
       \<and> worker_run opts gz wr host True label (replicate n False)
             (c\<lparr>batchChan := rest, w_seen := k, w_world := w, w_pc := AtSend p\<rparr>)
           = c\<lparr>batchChan := rest, w_seen := k, w_world := w, w_pc := AtSend p\<rparr>
       \<and> worker_step opts gz wr host True label True
             (c\<lparr>batchChan := rest, w_seen := k, w_world := w, w_pc := AtSend p\<rparr>)
           = Some (c\<lparr>batchChan := rest, w_seen := k, w_world := w, w_pc := AtRange,
                     telemetryChan := telemetryChan c @ [p]\<rparr>)"
proof -
  obtain p where q: "q = Some p" using process_batch_point[OF assms(1,4)] by blast
  let ?c1 = "c\<lparr>batchChan := rest, w_seen := k, w_world := w, w_pc := AtSend p\<rparr>"
  have 1: "worker_step opts gz wr host True label ready c = Some ?c1"
    using assms(2,3,4) q by (simp add: worker_step_def)
  have 2: "worker_step opts gz wr host True label False ?c1 = None"
    by (simp add: worker_step_def)
  have 3: "worker_run opts gz wr host True label (replicate n False) ?c1 = ?c1"
    by (rule worker_waits) simp
  have 4: "worker_step opts gz wr host True label True ?c1
           = Some (c\<lparr>batchChan := rest, w_seen := k, w_world := w, w_pc := AtRange,
                     telemetryChan := telemetryChan c @ [p]\<rparr>)"
    by (simp add: worker_step_def)
  show ?thesis using q 1 2 3 4 by blast
qed

theorem telemetry_send_blocks_witness:
  "doLoad sample_options \<and> w_pc sample_worker = AtRange \<and> batchChan sample_worker = ''ab'' # [''cd'']
   \<and> process_batch sample_options sample_gzip sample_writer ''u0'' True ''0''
        (w_seen sample_worker, w_world sample_worker) ''ab''
      = Inr (1, w_world sample_waiting, Some sample_point)
   \<and> worker_step sample_options sample_gzip sample_writer ''u0'' True ''0'' True sample_worker
      = Some sample_waiting
   \<and> worker_run sample_options sample_gzip sample_writer ''u0'' True ''0'' (replicate 5 False) sample_waiting
      = sample_waiting
   \<and> worker_step sample_options sample_gzip sample_writer ''u0'' True ''0'' True sample_waiting
      = Some (sample_waiting\<lparr>w_pc := AtRange,
                telemetryChan := [sample_point]\<rparr>)"
proof -
  have h: "process_batch sample_options sample_gzip sample_writer ''u0'' True ''0''
        (w_seen sample_worker, w_world sample_worker) ''ab''
      = Inr (1, w_world sample_waiting, Some sample_point)"
    by (simp add: process_batch_def sample_options_def sample_writer_def
        sample_worker_def sample_waiting_def sample_point_def pool_put_def reset_def)
  have d: "doLoad sample_options" by (simp add: sample_options_def)
  have a: "w_pc sample_worker = AtRange" "batchChan sample_worker = ''ab'' # [''cd'']"
    by (simp_all add: sample_worker_def)
  have c1: "sample_worker\<lparr>batchChan := [''cd''], w_seen := 1, w_world := w_world sample_waiting,
              w_pc := AtSend sample_point\<rparr> = sample_waiting"
    by (simp add: sample_worker_def sample_waiting_def)
  have c2: "sample_worker\<lparr>batchChan := [''cd''], w_seen := 1, w_world := w_world sample_waiting,
              w_pc := AtRange, telemetryChan := telemetryChan sample_worker @ [sample_point]\<rparr>
            = sample_waiting\<lparr>w_pc := AtRange, telemetryChan := [sample_point]\<rparr>"
    by (simp add: sample_worker_def sample_waiting_def)
  show ?thesis
    using telemetry_send_blocks[OF d a h, of True 5] h d a by (simp add: c1 c2)
qed

text \<open>
  Claim C4 as stated says that the point is dropped when the sink cannot take it and
  that the next receive from \<^verbatim>\<open>batchChan\<close> is always enabled. A worker with two batches
  in \<^verbatim>\<open>batchChan\<close> and a telemetry channel that takes nothing: after the first batch it
  stands at the send, the second batch is still in the channel, and it has no step.
\<close>

theorem telemetry_send_stalls:
  "worker_run sample_options sample_gzip sample_writer ''u0'' True ''0'' [False, False, False] sample_worker
     = sample_waiting
   \<and> worker_step sample_options sample_gzip sample_writer ''u0'' True ''0'' False sample_waiting = None"
  by (simp add: worker_step_def process_batch_def sample_options_def sample_writer_def
        sample_worker_def sample_waiting_def sample_point_def pool_put_def reset_def)

subsection \<open>Workers and endpoints\<close>

lemma process_batch_dry:
  "\<not> doLoad opts \<Longrightarrow> process_batch opts gz wr host sink label (n, w) b = Inr (n + 1, w, None)"
  by (simp add: process_batch_def)

lemma drain_dry:
  "\<not> doLoad opts \<Longrightarrow> drain opts gz wr hosts who k bs (seen, w, pts) = Inr (seen', w', pts') \<Longrightarrow>
   w' = w"
proof (induction bs arbitrary: k seen pts)
  case Nil
  then show ?case by simp
next
  case (Cons b bs)
  then show ?case by (simp add: process_batch_dry)
qed

text \<open>
  Claim C6, as the code has it, for a run in which no write fails. With load enabled,
  worker \<open>i\<close> writes every batch it receives to \<^verbatim>\<open>daemonUrls[i % M]\<close>, the host it was
  created with: the \<open>k\<close>-th request goes to the URL of the worker that received the
  \<open>k\<close>-th batch; with load disabled nothing is written. Which worker receives a batch is
  up to the scheduler. With load enabled and \<open>M \<le> N\<close>, when each of the \<open>N\<close> workers
  receives at least one batch, each of the \<open>M\<close> URLs receives at least one request.
\<close>

theorem worker_endpoint_binding:
  assumes "written w = []"
    and "drain opts gz wr (daemonUrl urls) who 0 bs (seen, w, pts) = Inr (seen', w', pts')"
  shows "map rq_host (written w')
           = (if doLoad opts then map (\<lambda>k. urls ! (who k mod length urls)) [0..<length bs] else [])
       \<and> (doLoad opts \<and> length urls \<le> N \<and> (\<forall>i<N. \<exists>k<length bs. who k = i)
            \<longrightarrow> (\<forall>j<length urls. urls ! j \<in> set (map rq_host (written w'))))"
proof (cases "doLoad opts")
  case True
  have hosts: "map rq_host (written w') = map (\<lambda>k. urls ! (who k mod length urls)) [0..<length bs]"
    using drain_hosts[OF True assms(2)] assms(1) by (simp add: daemonUrl_def)
  have "urls ! j \<in> set (map rq_host (written w'))"
    if h: "length urls \<le> N \<and> (\<forall>i<N. \<exists>k<length bs. who k = i)" and j: "j < length urls" for j
  proof -
    have "j < N" using h j by simp
    then have "\<exists>k<length bs. who k = j" using h by blast
    then obtain k where k: "k < length bs" "who k = j" by blast
    have "urls ! (who k mod length urls) \<in> (\<lambda>k. urls ! (who k mod length urls)) ` {0..<length bs}"
      using k(1) by simp
    then show ?thesis using hosts k(2) j by simp
  qed
  then show ?thesis using hosts True by simp
next
  case False
  have "w' = w" using drain_dry[OF False assms(2)] .
  then show ?thesis using False assms(1) by simp
qed

theorem worker_endpoint_binding_witness:
  "doLoad sample_options \<and> written \<lparr>pool = [], written = []\<rparr> = []
   \<and> drain sample_options sample_gzip sample_writer (daemonUrl [''u0'', ''u1'']) (\<lambda>k. k) 0 [''ab'', ''cd'']
        (\<lambda>i. 0, \<lparr>pool = [], written = []\<rparr>, [])
      = Inr (((\<lambda>i. 0)(0 := 1))(1 := 1),
             \<lparr>pool = [[], []],
               written = [\<lparr>rq_host = ''u0'', rq_body = ''ab'', rq_gzip = False\<rparr>,
                          \<lparr>rq_host = ''u1'', rq_body = ''cd'', rq_gzip = False\<rparr>]\<rparr>, [])
   \<and> ''u1'' \<in> set (map rq_host
             [\<lparr>rq_host = ''u0'', rq_body = ''ab'', rq_gzip = False\<rparr>,
              \<lparr>rq_host = ''u1'', rq_body = ''cd'', rq_gzip = False\<rparr>])"
proof -
  have d: "doLoad sample_options" by (simp add: sample_options_def)
  have w: "written \<lparr>pool = [], written = []\<rparr> = []" by simp
  have r: "drain sample_options sample_gzip sample_writer (daemonUrl [''u0'', ''u1'']) (\<lambda>k. k) 0 [''ab'', ''cd'']
        (\<lambda>i. 0, \<lparr>pool = [], written = []\<rparr>, [])
      = Inr (((\<lambda>i. 0)(0 := 1))(1 := 1),
             \<lparr>pool = [[], []],
               written = [\<lparr>rq_host = ''u0'', rq_body = ''ab'', rq_gzip = False\<rparr>,
                          \<lparr>rq_host = ''u1'', rq_body = ''cd'', rq_gzip = False\<rparr>]\<rparr>, [])"
    by (simp add: process_batch_def sample_options_def sample_writer_def daemonUrl_def
          pool_put_def reset_def)
  have all: "\<forall>i<(2::nat). \<exists>k<length [''ab'', ''cd'']. (\<lambda>k. k) k = i" by simp
  show ?thesis
    using worker_endpoint_binding[OF w r, of 2] all d r by simp
qed

text \<open>
  Claim C6 as stated says that every endpoint receives a batch as soon as there are
  at least \<open>M\<close> batches. Two workers, two URLs and two batches, both received by worker
  0: \<open>u1\<close> receives nothing.
\<close>

theorem idle_endpoint:
  "main_pipeline sample_options (sample_check 2 5) sample_gzip sample_writer (\<lambda>k. 0)
      \<lparr>lines = [''a'', ''b'', ''c'', ''d'', ''T''], scanErr = None\<rparr>
     = Completed 2 8 5
         \<lparr>pool = [[], []],
          written = [\<lparr>rq_host = ''u0'', rq_body = ''a'' @ [newline] @ ''b'' @ [newline], rq_gzip = False\<rparr>,
                     \<lparr>rq_host = ''u0'', rq_body = ''c'' @ [newline] @ ''d'' @ [newline], rq_gzip = False\<rparr>]\<rparr>
         []
   \<and> workers sample_options = 2 \<and> daemonUrls sample_options = [''u0'', ''u1'']
   \<and> ''u1'' \<notin> set (map rq_host
         [\<lparr>rq_host = ''u0'', rq_body = ''a'' @ [newline] @ ''b'' @ [newline], rq_gzip = False\<rparr>,
          \<lparr>rq_host = ''u0'', rq_body = ''c'' @ [newline] @ ''d'' @ [newline], rq_gzip = False\<rparr>])"
  by (simp add: main_pipeline_def sample_options_def sample_check_def sample_writer_def scan_def
        scan_init_def scan_line_def scan_finish_def new_buffer_def process_batch_def daemonUrl_def
        pool_put_def reset_def)

end
